theory Spec2Isabelle
  imports Main "HOL-Library.Sublist"
begin

section \<open>Python strings\<close>

text \<open>
  A Python \<open>str\<close> is a sequence of Unicode code points, and \<open>len\<close> counts code
  points.  A code point is modelled by its number, a string by the list of its code points.
\<close>

type_synonym ustring = "nat list"

text \<open>ASCII literals of the source, written as Isabelle strings.\<close>

definition asc :: "string \<Rightarrow> ustring" where
  "asc s = map of_char s"

subsection \<open>\<open>str.count\<close>, \<open>str.replace\<close> and \<open>in\<close>\<close>

text \<open>
  \<open>s.count(sub)\<close>: the number of non-overlapping occurrences of \<open>sub\<close> in \<open>s\<close>,
  found from left to right; the empty \<open>sub\<close> occurs \<open>len(s) + 1\<close> times.
\<close>

fun count_str :: "ustring \<Rightarrow> ustring \<Rightarrow> nat" where
  "count_str [] s = Suc (length s)"
| "count_str (a # as) [] = 0"
| "count_str (a # as) (c # cs) =
     (if take (length (a # as)) (c # cs) = a # as
      then Suc (count_str (a # as) (drop (length as) cs))
      else count_str (a # as) cs)"

text \<open>
  \<open>s.replace(old, new)\<close>: every non-overlapping occurrence of \<open>old\<close>, from left to
  right, becomes \<open>new\<close>; the empty \<open>old\<close> puts \<open>new\<close> before every character and
  at the end.
\<close>

fun replace_str :: "ustring \<Rightarrow> ustring \<Rightarrow> ustring \<Rightarrow> ustring" where
  "replace_str [] new s = new @ concat (map (\<lambda>c. c # new) s)"
| "replace_str (a # as) new [] = []"
| "replace_str (a # as) new (c # cs) =
     (if take (length (a # as)) (c # cs) = a # as
      then new @ replace_str (a # as) new (drop (length as) cs)
      else c # replace_str (a # as) new cs)"

text \<open>\<open>sub in s\<close>: \<open>sub\<close> occurs somewhere in \<open>s\<close>.\<close>

fun contains_str :: "ustring \<Rightarrow> ustring \<Rightarrow> bool" where
  "contains_str sub [] = (sub = [])"
| "contains_str sub (c # cs) = (take (length sub) (c # cs) = sub \<or> contains_str sub cs)"

subsection \<open>Whitespace\<close>

text \<open>
  The characters that \<open>str.strip()\<close> removes and that \<open>\s\<close> matches in a \<open>str\<close>
  pattern: both test the same predicate of the interpreter, true of the code points
  below (TAB to CR, FS to SPACE, NEL, NBSP, OGHAM SPACE MARK, EN QUAD to HAIR SPACE, LINE
  and PARAGRAPH SEPARATOR, NARROW NBSP, MEDIUM MATHEMATICAL SPACE, IDEOGRAPHIC SPACE).
\<close>

definition is_space :: "nat \<Rightarrow> bool" where
  "is_space c \<longleftrightarrow>
     (0x09 \<le> c \<and> c \<le> 0x0D) \<or> (0x1C \<le> c \<and> c \<le> 0x20) \<or> c = 0x85 \<or> c = 0xA0 \<or>
     c = 0x1680 \<or> (0x2000 \<le> c \<and> c \<le> 0x200A) \<or> c = 0x2028 \<or> c = 0x2029 \<or>
     c = 0x202F \<or> c = 0x205F \<or> c = 0x3000"

text \<open>\<open>s.strip()\<close>: leading and trailing whitespace removed.\<close>

definition strip :: "ustring \<Rightarrow> ustring" where
  "strip s = rev (dropWhile is_space (rev (dropWhile is_space s)))"

section \<open>The patterns\<close>

text \<open>
  \<open>MULTISPACE_PATTERN = re.compile(r'\s+')\<close> and \<open>MULTISPACE_PATTERN.sub(' ', text)\<close>:
  scanning from the left, every maximal run of whitespace becomes one space.
\<close>

function multispace_sub :: "ustring \<Rightarrow> ustring" where
  "multispace_sub [] = []"
| "multispace_sub (c # cs) =
     (if is_space c then 0x20 # multispace_sub (dropWhile is_space cs)
      else c # multispace_sub cs)"
  by pat_completeness auto
termination
  by (relation "measure length") (auto simp: length_dropWhile_le less_Suc_eq_le)

text \<open>
  \<open>UTM_PATTERN = re.compile(r'\?utm_[^\s\n]+')\<close>.  The class \<open>[^\s\n]\<close> holds the
  characters that are neither whitespace nor a line feed.  A match at the start of \<open>s\<close>
  reads the literal \<open>?utm_\<close> and then, greedily, one or more characters of the class;
  \<open>utm_match\<close> returns the matched text and the rest of \<open>s\<close>.
\<close>

definition utm_class :: "nat \<Rightarrow> bool" where
  "utm_class c \<longleftrightarrow> \<not> (is_space c \<or> c = 0x0A)"

definition utm_literal :: ustring where
  "utm_literal = asc ''?utm_''"

definition utm_match :: "ustring \<Rightarrow> (ustring \<times> ustring) option" where
  "utm_match s =
     (if take (length utm_literal) s = utm_literal
      then (case takeWhile utm_class (drop (length utm_literal) s) of
              [] \<Rightarrow> None
            | x # xs \<Rightarrow> Some (utm_literal @ x # xs,
                             dropWhile utm_class (drop (length utm_literal) s)))
      else None)"

text \<open>
  \<open>UTM_PATTERN.findall(text)\<close>: the matches, scanning from the left; the scan goes on
  behind a match, and one character further where there is none.
\<close>

function utm_findall :: "ustring \<Rightarrow> ustring list" where
  "utm_findall [] = []"
| "utm_findall (c # cs) =
     (case utm_match (c # cs) of
        Some (m, rest) \<Rightarrow> m # utm_findall rest
      | None \<Rightarrow> utm_findall cs)"
  by pat_completeness auto
termination
proof (relation "measure length")
  fix c cs p m rest
  assume "utm_match (c # cs) = Some p" and "(m, rest) = p"
  then have "rest = dropWhile utm_class (drop (length utm_literal) (c # cs))"
    by (auto simp: utm_match_def split: if_splits list.splits)
  then have "length rest \<le> length (drop (length utm_literal) (c # cs))"
    by (simp only: length_dropWhile_le)
  also have "\<dots> < length (c # cs)"
    by (simp add: utm_literal_def asc_def)
  finally show "(rest, c # cs) \<in> measure length" by simp
qed simp_all

text \<open>\<open>UTM_PATTERN.sub('', text)\<close>: the same scan, every match left out.\<close>

function utm_sub :: "ustring \<Rightarrow> ustring" where
  "utm_sub [] = []"
| "utm_sub (c # cs) =
     (case utm_match (c # cs) of
        Some (m, rest) \<Rightarrow> utm_sub rest
      | None \<Rightarrow> c # utm_sub cs)"
  by pat_completeness auto
termination
proof (relation "measure length")
  fix c cs p m rest
  assume "utm_match (c # cs) = Some p" and "(m, rest) = p"
  then have "rest = dropWhile utm_class (drop (length utm_literal) (c # cs))"
    by (auto simp: utm_match_def split: if_splits list.splits)
  then have "length rest \<le> length (drop (length utm_literal) (c # cs))"
    by (simp only: length_dropWhile_le)
  also have "\<dots> < length (c # cs)"
    by (simp add: utm_literal_def asc_def)
  finally show "(rest, c # cs) \<in> measure length" by simp
qed simp_all

section \<open>The tables\<close>

definition LANG_PUNCT_MAP :: "(ustring \<times> ustring) list" where
  "LANG_PUNCT_MAP =
     [([0xBF], asc ''?''), ([0xA1], asc ''!''), ([0xAB], [0x22]), ([0xBB], [0x22]),
      ([0x2014], asc ''-''), ([0x2013], asc ''-''), ([0x2026], asc ''...'')]"

definition FANCY_DOUBLE :: "ustring list" where
  "FANCY_DOUBLE = [ [0x201C], [0x201D] ]"

definition FANCY_SINGLE :: "ustring list" where
  "FANCY_SINGLE = [ [0x2018], [0x2019] ]"

section \<open>\<open>clean_text\<close>\<close>

text \<open>The summary is a dictionary from key names to Python integers.\<close>

type_synonym summary = "string \<rightharpoonup> int"

text \<open>\<open>sum(text.count(ch) for ch in chs)\<close>\<close>

definition count_sum :: "ustring list \<Rightarrow> ustring \<Rightarrow> int" where
  "count_sum chs text = sum_list (map (\<lambda>ch. int (count_str ch text)) chs)"

text \<open>\<open>for ch in chs: text = text.replace(ch, new)\<close>\<close>

fun replace_each :: "ustring list \<Rightarrow> ustring \<Rightarrow> ustring \<Rightarrow> ustring" where
  "replace_each [] new text = text"
| "replace_each (ch # chs) new text = replace_each chs new (replace_str ch new text)"

text \<open>
  The loop over \<open>LANG_PUNCT_MAP.items()\<close>, in the order of the table, on the pair of
  \<open>replaced\<close> and \<open>text\<close>.
\<close>

fun lang_punct_loop :: "(ustring \<times> ustring) list \<Rightarrow> int \<times> ustring \<Rightarrow> int \<times> ustring" where
  "lang_punct_loop [] (replaced, text) = (replaced, text)"
| "lang_punct_loop ((src, dst) # items) (replaced, text) =
     (if contains_str src text
      then lang_punct_loop items (replaced + int (count_str src text), replace_str src dst text)
      else lang_punct_loop items (replaced, text))"

text \<open>
  \<open>clean_text(text, language_mode, summary)\<close>.  The source returns the text and writes
  the counts into the dictionary it was given (a new one when it was given \<open>None\<close>); the
  model returns both.
\<close>

definition clean_text :: "ustring \<Rightarrow> bool \<Rightarrow> summary option \<Rightarrow> ustring \<times> summary" where
  "clean_text text language_mode summary_arg =
     (let summary = (case summary_arg of None \<Rightarrow> Map.empty | Some d \<Rightarrow> d);
          double_count = count_sum FANCY_DOUBLE text;
          single_count = count_sum FANCY_SINGLE text;
          summary = summary(''fancy_double_before'' \<mapsto> double_count);
          summary = summary(''fancy_single_before'' \<mapsto> single_count);
          text = replace_each FANCY_DOUBLE [0x22] text;
          text = replace_each FANCY_SINGLE [0x27] text;
          (text, summary) =
            (if language_mode
             then (let (replaced, text) = lang_punct_loop LANG_PUNCT_MAP (0, text)
                   in (text, summary(''lang_punct_replaced'' \<mapsto> replaced)))
             else (text, summary));
          text = replace_str [0x0D] [0x0A] (replace_str [0x0D, 0x0A] [0x0A] text);
          text = strip (multispace_sub text);
          utm_matches = utm_findall text;
          summary = summary(''utm_removed_count'' \<mapsto> int (length utm_matches));
          text = utm_sub text;
          text = strip (multispace_sub text);
          summary = summary(''final_length'' \<mapsto> int (length text))
      in (text, summary))"

text \<open>The call with a new summary, as every caller of the source makes it.\<close>

definition clean :: "ustring \<Rightarrow> bool \<Rightarrow> ustring \<times> summary" where
  "clean text language_mode = clean_text text language_mode (Some Map.empty)"

section \<open>Vocabulary of the properties\<close>

text \<open>
  The definitions of this section are not part of the program: the theorems below state
  in their terms what the program computes.
\<close>

text \<open>The two double-quote glyphs of \<open>FANCY_DOUBLE\<close>, the two single-quote glyphs of
  \<open>FANCY_SINGLE\<close>, and the character map that the two rounds of replacement amount to.\<close>

definition is_fancy_double :: "nat \<Rightarrow> bool" where
  "is_fancy_double c \<longleftrightarrow> c = 0x201C \<or> c = 0x201D"

definition is_fancy_single :: "nat \<Rightarrow> bool" where
  "is_fancy_single c \<longleftrightarrow> c = 0x2018 \<or> c = 0x2019"

definition quote_map :: "nat \<Rightarrow> nat" where
  "quote_map c = (if is_fancy_double c then 0x22 else if is_fancy_single c then 0x27 else c)"

text \<open>The keys of \<open>LANG_PUNCT_MAP\<close>, and the table read as a map from a character to
  the text that replaces it.\<close>

definition is_lang_punct :: "nat \<Rightarrow> bool" where
  "is_lang_punct c \<longleftrightarrow>
     c = 0xBF \<or> c = 0xA1 \<or> c = 0xAB \<or> c = 0xBB \<or> c = 0x2014 \<or> c = 0x2013 \<or> c = 0x2026"

definition lang_map :: "nat \<Rightarrow> ustring" where
  "lang_map c =
     (if c = 0xBF then [0x3F] else if c = 0xA1 then [0x21]
      else if c = 0xAB \<or> c = 0xBB then [0x22]
      else if c = 0x2014 \<or> c = 0x2013 then [0x2D]
      else if c = 0x2026 then [0x2E, 0x2E, 0x2E] else [c])"

text \<open>
  A text is \<open>collapsed\<close> when its only whitespace character is the space and no
  whitespace character follows another, \<open>stripped\<close> when it neither starts nor ends
  with whitespace, and \<open>utm_free\<close> when \<open>UTM_PATTERN\<close> matches at none of its
  positions.
\<close>

fun collapsed :: "ustring \<Rightarrow> bool" where
  "collapsed [] = True"
| "collapsed (c # cs) =
     ((is_space c \<longrightarrow> c = 0x20 \<and> (case cs of [] \<Rightarrow> True | d # ds \<Rightarrow> \<not> is_space d)) \<and> collapsed cs)"

definition stripped :: "ustring \<Rightarrow> bool" where
  "stripped s \<longleftrightarrow> (case s of [] \<Rightarrow> True | c # cs \<Rightarrow> \<not> is_space c \<and> \<not> is_space (last s))"

fun utm_free :: "ustring \<Rightarrow> bool" where
  "utm_free [] = True"
| "utm_free (c # cs) = (utm_match (c # cs) = None \<and> utm_free cs)"

text \<open>
  The text at three points of \<open>clean_text\<close>: after the quote replacement, after the
  language-mode block, and after the first \<open>MULTISPACE_PATTERN.sub(' ', text).strip()\<close>.
\<close>

definition quoted_text :: "ustring \<Rightarrow> ustring" where
  "quoted_text text = replace_each FANCY_SINGLE [0x27] (replace_each FANCY_DOUBLE [0x22] text)"

definition punct_text :: "bool \<Rightarrow> ustring \<Rightarrow> ustring" where
  "punct_text language_mode text =
     (if language_mode then snd (lang_punct_loop LANG_PUNCT_MAP (0, quoted_text text))
      else quoted_text text)"

definition collapsed_text :: "bool \<Rightarrow> ustring \<Rightarrow> ustring" where
  "collapsed_text language_mode text =
     strip (multispace_sub
       (replace_str [0x0D] [0x0A] (replace_str [0x0D, 0x0A] [0x0A] (punct_text language_mode text))))"

text \<open>A character that the quote replacement and, in language mode, the table leave
  alone.\<close>

definition plain :: "bool \<Rightarrow> nat \<Rightarrow> bool" where
  "plain lm c \<longleftrightarrow> \<not> is_fancy_double c \<and> \<not> is_fancy_single c \<and> (lm \<longrightarrow> \<not> is_lang_punct c)"

section \<open>String operations on single characters\<close>

lemma count_str_single: "count_str [a] s = length (filter (\<lambda>c. c = a) s)"
  by (induction s) auto

lemma replace_str_single:
  "replace_str [a] new s = concat (map (\<lambda>c. if c = a then new else [c]) s)"
  by (induction s) auto

lemma contains_str_single: "contains_str [a] s \<longleftrightarrow> a \<in> set s"
  by (induction s) auto

lemma replace_str_absent: "a \<notin> set s \<Longrightarrow> replace_str (a # as) new s = s"
  by (induction s) auto

lemma length_replace_str_le:
  "length new \<le> length old \<Longrightarrow> length (replace_str old new s) \<le> length s"
proof (induction old new s rule: replace_str.induct)
  case (1 new s)
  then show ?case by (simp add: concat_map_singleton)
next
  case (2 a as new)
  then show ?case by simp
next
  case (3 a as new c cs)
  show ?case
  proof (cases "take (length (a # as)) (c # cs) = a # as")
    case True
    then have "length as \<le> length cs"
      by (metis length_Cons length_take min.cobounded1 min.commute Suc_le_mono)
    with 3 True show ?thesis by auto
  next
    case False
    with 3 show ?thesis by auto
  qed
qed

lemma set_replace_str: "set (replace_str old new s) \<subseteq> set s \<union> set new"
proof (induction old new s rule: replace_str.induct)
  case (3 a as new c cs)
  show ?case
  proof (cases "take (length (a # as)) (c # cs) = a # as")
    case True
    have "set (drop (length as) cs) \<subseteq> set cs" by (rule set_drop_subset)
    with 3 True show ?thesis by auto
  next
    case False
    with 3 show ?thesis by auto
  qed
qed auto

section \<open>The quote and punctuation stages\<close>

lemma count_sum_double: "count_sum FANCY_DOUBLE t = int (length (filter is_fancy_double t))"
  by (induction t) (auto simp: count_sum_def FANCY_DOUBLE_def count_str_single is_fancy_double_def)

lemma count_sum_single: "count_sum FANCY_SINGLE t = int (length (filter is_fancy_single t))"
  by (induction t) (auto simp: count_sum_def FANCY_SINGLE_def count_str_single is_fancy_single_def)

lemma quotes_stage:
  "replace_each FANCY_SINGLE [0x27] (replace_each FANCY_DOUBLE [0x22] t) = map quote_map t"
  by (induction t)
    (auto simp: FANCY_DOUBLE_def FANCY_SINGLE_def replace_str_single quote_map_def
      is_fancy_double_def is_fancy_single_def)

lemma lang_step:
  "lang_punct_loop (([a], dst) # items) (r, t) =
     lang_punct_loop items
       (r + int (length (filter (\<lambda>c. c = a) t)),
        concat (map (\<lambda>c. if c = a then dst else [c]) t))"
proof (cases "a \<in> set t")
  case True
  then show ?thesis
    by (simp add: contains_str_single count_str_single replace_str_single)
next
  case False
  then have "filter (\<lambda>c. c = a) t = []" "concat (map (\<lambda>c. if c = a then dst else [c]) t) = t"
    by (induction t) auto
  with False show ?thesis
    by (simp add: contains_str_single)
qed

lemma asc_simps: "asc ''?'' = [0x3F]" "asc ''!'' = [0x21]" "asc ''-'' = [0x2D]" "asc ''...'' = [0x2E, 0x2E, 0x2E]"
  by (simp_all add: asc_def)

lemma concat_map_concat:
  "concat (map f (concat (map g t))) = concat (map (\<lambda>c. concat (map f (g c))) t)"
  by (induction t) auto

lemma lang_loop_unfold:
  "lang_punct_loop LANG_PUNCT_MAP (r, t) =
     (let t1 = concat (map (\<lambda>c. if c = 0xBF then [0x3F] else [c]) t);
          t2 = concat (map (\<lambda>c. if c = 0xA1 then [0x21] else [c]) t1);
          t3 = concat (map (\<lambda>c. if c = 0xAB then [0x22] else [c]) t2);
          t4 = concat (map (\<lambda>c. if c = 0xBB then [0x22] else [c]) t3);
          t5 = concat (map (\<lambda>c. if c = 0x2014 then [0x2D] else [c]) t4);
          t6 = concat (map (\<lambda>c. if c = 0x2013 then [0x2D] else [c]) t5);
          t7 = concat (map (\<lambda>c. if c = 0x2026 then [0x2E, 0x2E, 0x2E] else [c]) t6)
      in (r + int (length (filter (\<lambda>c. c = 0xBF) t))
            + int (length (filter (\<lambda>c. c = 0xA1) t1))
            + int (length (filter (\<lambda>c. c = 0xAB) t2))
            + int (length (filter (\<lambda>c. c = 0xBB) t3))
            + int (length (filter (\<lambda>c. c = 0x2014) t4))
            + int (length (filter (\<lambda>c. c = 0x2013) t5))
            + int (length (filter (\<lambda>c. c = 0x2026) t6)), t7))"
  by (simp only: LANG_PUNCT_MAP_def lang_step asc_simps lang_punct_loop.simps(1) Let_def)

lemma lang_text:
  "snd (lang_punct_loop LANG_PUNCT_MAP (r, t)) = concat (map lang_map t)"
  unfolding lang_loop_unfold Let_def snd_conv concat_map_concat
  by (rule arg_cong [where f = concat], rule map_cong [OF refl]) (simp add: lang_map_def)

lemma length_filter_subst:
  "a \<noteq> b \<Longrightarrow> a \<notin> set d \<Longrightarrow>
   length (filter (\<lambda>c. c = a) (concat (map (\<lambda>c. if c = b then d else [c]) t))) =
   length (filter (\<lambda>c. c = a) t)"
  by (induction t) (auto simp: filter_empty_conv)

lemma lang_count:
  "fst (lang_punct_loop LANG_PUNCT_MAP (r, t)) = r + int (length (filter is_lang_punct t))"
proof -
  define t1 where "t1 = concat (map (\<lambda>c. if c = 0xBF then [0x3F] else [c]) t)"
  define t2 where "t2 = concat (map (\<lambda>c. if c = 0xA1 then [0x21] else [c]) t1)"
  define t3 where "t3 = concat (map (\<lambda>c. if c = 0xAB then [0x22] else [c]) t2)"
  define t4 where "t4 = concat (map (\<lambda>c. if c = 0xBB then [0x22] else [c]) t3)"
  define t5 where "t5 = concat (map (\<lambda>c. if c = 0x2014 then [0x2D] else [c]) t4)"
  define t6 where "t6 = concat (map (\<lambda>c. if c = 0x2013 then [0x2D] else [c]) t5)"
  have unfolded: "fst (lang_punct_loop LANG_PUNCT_MAP (r, t)) =
      r + int (length (filter (\<lambda>c. c = 0xBF) t))
        + int (length (filter (\<lambda>c. c = 0xA1) t1))
        + int (length (filter (\<lambda>c. c = 0xAB) t2))
        + int (length (filter (\<lambda>c. c = 0xBB) t3))
        + int (length (filter (\<lambda>c. c = 0x2014) t4))
        + int (length (filter (\<lambda>c. c = 0x2013) t5))
        + int (length (filter (\<lambda>c. c = 0x2026) t6))"
    unfolding lang_loop_unfold Let_def fst_conv t1_def t2_def t3_def t4_def t5_def t6_def ..
  have k1: "\<And>a. a \<noteq> 0xBF \<Longrightarrow> a \<noteq> 0x3F \<Longrightarrow>
      length (filter (\<lambda>c. c = a) t1) = length (filter (\<lambda>c. c = a) t)"
    unfolding t1_def by (rule length_filter_subst) simp_all
  have k2: "\<And>a. a \<noteq> 0xA1 \<Longrightarrow> a \<noteq> 0x21 \<Longrightarrow>
      length (filter (\<lambda>c. c = a) t2) = length (filter (\<lambda>c. c = a) t1)"
    unfolding t2_def by (rule length_filter_subst) simp_all
  have k3: "\<And>a. a \<noteq> 0xAB \<Longrightarrow> a \<noteq> 0x22 \<Longrightarrow>
      length (filter (\<lambda>c. c = a) t3) = length (filter (\<lambda>c. c = a) t2)"
    unfolding t3_def by (rule length_filter_subst) simp_all
  have k4: "\<And>a. a \<noteq> 0xBB \<Longrightarrow> a \<noteq> 0x22 \<Longrightarrow>
      length (filter (\<lambda>c. c = a) t4) = length (filter (\<lambda>c. c = a) t3)"
    unfolding t4_def by (rule length_filter_subst) simp_all
  have k5: "\<And>a. a \<noteq> 0x2014 \<Longrightarrow> a \<noteq> 0x2D \<Longrightarrow>
      length (filter (\<lambda>c. c = a) t5) = length (filter (\<lambda>c. c = a) t4)"
    unfolding t5_def by (rule length_filter_subst) simp_all
  have k6: "\<And>a. a \<noteq> 0x2013 \<Longrightarrow> a \<noteq> 0x2D \<Longrightarrow>
      length (filter (\<lambda>c. c = a) t6) = length (filter (\<lambda>c. c = a) t5)"
    unfolding t6_def by (rule length_filter_subst) simp_all
  have split: "length (filter is_lang_punct t) =
      length (filter (\<lambda>c. c = 0xBF) t) + length (filter (\<lambda>c. c = 0xA1) t)
      + length (filter (\<lambda>c. c = 0xAB) t) + length (filter (\<lambda>c. c = 0xBB) t)
      + length (filter (\<lambda>c. c = 0x2014) t) + length (filter (\<lambda>c. c = 0x2013) t)
      + length (filter (\<lambda>c. c = 0x2026) t)"
    by (induction t) (simp_all add: is_lang_punct_def)
  show ?thesis
    unfolding unfolded split by (simp add: k1 k2 k3 k4 k5 k6)
qed

section \<open>Whitespace collapse and strip\<close>

lemma multispace_sub_head:
  "\<not> is_space c \<Longrightarrow> \<exists>ds. multispace_sub (c # cs) = c # ds"
  by simp

lemma collapsed_multispace_sub: "collapsed (multispace_sub s)"
proof (induction s rule: multispace_sub.induct)
  case 1
  show ?case by simp
next
  case (2 c cs)
  show ?case
  proof (cases "is_space c")
    case True
    have "case multispace_sub (dropWhile is_space cs) of [] \<Rightarrow> True | d # ds \<Rightarrow> \<not> is_space d"
    proof (cases "dropWhile is_space cs")
      case Nil
      then have "multispace_sub (dropWhile is_space cs) = []"
        by (simp only: multispace_sub.simps)
      then show ?thesis by (simp only: list.case)
    next
      case (Cons d ds)
      then have "\<not> is_space d"
        by (metis hd_dropWhile list.sel(1) list.distinct(1))
      with Cons show ?thesis by simp
    qed
    with 2 True show ?thesis by simp
  next
    case False
    with 2 show ?thesis by simp
  qed
qed

lemma collapsed_append: "collapsed (xs @ ys) \<Longrightarrow> collapsed xs \<and> collapsed ys"
proof (induction xs)
  case Nil
  then show ?case by simp
next
  case (Cons c xs)
  then show ?case by (cases xs) simp_all
qed

lemma rstrip_decomp:
  "u = rev (dropWhile is_space (rev u)) @ rev (takeWhile is_space (rev u))"
proof -
  have "rev u = takeWhile is_space (rev u) @ dropWhile is_space (rev u)" by simp
  then have "rev (rev u) = rev (takeWhile is_space (rev u) @ dropWhile is_space (rev u))"
    by (rule arg_cong)
  then show ?thesis by (simp only: rev_rev_ident rev_append)
qed

lemma collapsed_strip: "collapsed s \<Longrightarrow> collapsed (strip s)"
proof -
  assume h: "collapsed s"
  define u where "u = dropWhile is_space s"
  have "s = takeWhile is_space s @ u" by (simp add: u_def)
  with h have "collapsed (takeWhile is_space s @ u)" by simp
  then have a: "collapsed u" by (rule collapsed_append [THEN conjunct2])
  have "collapsed (rev (dropWhile is_space (rev u)) @ rev (takeWhile is_space (rev u)))"
    using a rstrip_decomp [of u] by simp
  then have "collapsed (rev (dropWhile is_space (rev u)))"
    by (rule collapsed_append [THEN conjunct1])
  then show ?thesis by (simp add: strip_def u_def)
qed

lemma hd_dropWhile_space: "dropWhile is_space s = c # cs \<Longrightarrow> \<not> is_space c"
  using hd_dropWhile [of is_space s] by simp

lemma stripped_strip: "stripped (strip s)"
proof (cases "strip s")
  case Nil
  then show ?thesis by (simp add: stripped_def)
next
  case (Cons c cs)
  define u where "u = dropWhile is_space s"
  define v where "v = dropWhile is_space (rev u)"
  have sv: "strip s = rev v" by (simp add: strip_def u_def v_def)
  with Cons have vne: "v \<noteq> []" by auto
  then obtain d ds where v: "v = d # ds" by (cases v) auto
  then have "\<not> is_space d" unfolding v_def by (rule hd_dropWhile_space)
  then have l: "\<not> is_space (last (strip s))" by (simp add: sv v)
  have dec: "u = rev v @ rev (takeWhile is_space (rev u))"
    unfolding v_def by (rule rstrip_decomp)
  from sv Cons have rv: "rev v = c # cs" by simp
  with dec have "u = c # (cs @ rev (takeWhile is_space (rev u)))" by simp
  then have "\<not> is_space c" unfolding u_def by (rule hd_dropWhile_space)
  with l Cons show ?thesis by (simp add: stripped_def)
qed

lemma multispace_sub_collapsed: "collapsed s \<Longrightarrow> multispace_sub s = s"
proof (induction s rule: multispace_sub.induct)
  case 1
  show ?case by simp
next
  case (2 c cs)
  show ?case
  proof (cases "is_space c")
    case True
    with 2 have "dropWhile is_space cs = cs" by (cases cs) auto
    with 2 True show ?thesis by simp
  next
    case False
    with 2 show ?thesis by simp
  qed
qed

lemma strip_stripped: "stripped s \<Longrightarrow> strip s = s"
proof (cases s)
  case Nil
  then show ?thesis by (simp add: strip_def)
next
  case (Cons c cs)
  assume "stripped s"
  with Cons have a: "\<not> is_space c" and b: "\<not> is_space (last s)"
    by (simp_all add: stripped_def)
  from a Cons have f: "dropWhile is_space s = s" by simp
  from Cons have "rev s \<noteq> []" by simp
  then obtain d ds where r: "rev s = d # ds" by (cases "rev s") auto
  then have "last s = d" using Cons by (metis last_rev list.sel(1) rev_rev_ident hd_rev)
  with b r have "dropWhile is_space (rev s) = rev s" by simp
  with f show ?thesis by (simp add: strip_def)
qed

lemma length_multispace_sub: "length (multispace_sub s) \<le> length s"
proof (induction s rule: multispace_sub.induct)
  case 1
  show ?case by simp
next
  case (2 c cs)
  have "length (dropWhile is_space cs) \<le> length cs" by (rule length_dropWhile_le)
  with 2 show ?case by (cases "is_space c") auto
qed

lemma length_strip: "length (strip s) \<le> length s"
proof -
  have "length (strip s) \<le> length (dropWhile is_space s)"
    unfolding strip_def using length_dropWhile_le [of is_space "rev (dropWhile is_space s)"] by simp
  also have "\<dots> \<le> length s" by (rule length_dropWhile_le)
  finally show ?thesis .
qed

lemma set_multispace_sub: "set (multispace_sub s) \<subseteq> insert 0x20 (set s)"
proof (induction s rule: multispace_sub.induct)
  case 1
  show ?case by simp
next
  case (2 c cs)
  have "set (dropWhile is_space cs) \<subseteq> set cs" by (auto dest: set_dropWhileD)
  with 2 show ?case by (cases "is_space c") auto
qed

lemma set_strip: "set (strip s) \<subseteq> set s"
proof -
  have "set (strip s) \<subseteq> set (dropWhile is_space s)"
    unfolding strip_def by (auto dest: set_dropWhileD)
  also have "\<dots> \<subseteq> set s" by (auto dest: set_dropWhileD)
  finally show ?thesis .
qed

section \<open>The UTM pattern\<close>

lemma utm_class_iff: "utm_class c \<longleftrightarrow> \<not> is_space c"
  by (auto simp: utm_class_def is_space_def)

lemma utm_class_fun: "utm_class = (\<lambda>c. \<not> is_space c)"
  by (rule ext) (rule utm_class_iff)

lemma utm_literal_eq: "utm_literal = [0x3F, 0x75, 0x74, 0x6D, 0x5F]"
  by (simp add: utm_literal_def asc_def)

lemma utm_literal_class: "c \<in> set utm_literal \<Longrightarrow> utm_class c"
  by (auto simp: utm_literal_eq utm_class_def is_space_def)

lemma take_literal_iff: "take (length utm_literal) s = utm_literal \<longleftrightarrow> (\<exists>ys. s = utm_literal @ ys)"
proof
  assume "take (length utm_literal) s = utm_literal"
  then have "s = utm_literal @ drop (length utm_literal) s"
    by (metis append_take_drop_id)
  then show "\<exists>ys. s = utm_literal @ ys" ..
next
  assume "\<exists>ys. s = utm_literal @ ys"
  then show "take (length utm_literal) s = utm_literal" by auto
qed

lemma utm_match_Some_iff:
  "utm_match s = Some (m, r) \<longleftrightarrow>
     (\<exists>x xs. s = utm_literal @ x # xs \<and> utm_class x \<and>
        m = utm_literal @ x # takeWhile utm_class xs \<and> r = dropWhile utm_class xs)"
proof (cases "take (length utm_literal) s = utm_literal")
  case False
  then have none: "utm_match s = None" by (simp add: utm_match_def)
  have "s \<noteq> utm_literal @ x # xs" for x xs
    using False by auto
  with none show ?thesis by simp
next
  case True
  then obtain ys where s: "s = utm_literal @ ys" by (auto simp only: take_literal_iff)
  show ?thesis
  proof (cases ys)
    case Nil
    with s show ?thesis by (simp add: utm_match_def)
  next
    case (Cons y ys')
    with s show ?thesis by (cases "utm_class y") (auto simp: utm_match_def)
  qed
qed

lemma utm_match_None_iff:
  "utm_match s = None \<longleftrightarrow> \<not> (\<exists>x xs. s = utm_literal @ x # xs \<and> utm_class x)"
proof -
  have "utm_match s = None \<longleftrightarrow> \<not> (\<exists>m r. utm_match s = Some (m, r))"
    by (cases "utm_match s") auto
  then show ?thesis by (simp add: utm_match_Some_iff)
qed

lemma utm_match_space: "is_space c \<Longrightarrow> utm_match (c # cs) = None"
  by (auto simp: utm_match_None_iff utm_literal_eq is_space_def)

lemma utm_match_prefix:
  assumes "prefix (takeWhile utm_class s') s" and "utm_match s = None"
  shows "utm_match s' = None"
proof (rule ccontr)
  assume "utm_match s' \<noteq> None"
  then obtain x xs where s': "s' = utm_literal @ x # xs" and x: "utm_class x"
    by (auto simp: utm_match_None_iff)
  have "takeWhile utm_class s' = utm_literal @ x # takeWhile utm_class xs"
    unfolding s' using x by (simp add: takeWhile_append2 utm_literal_class)
  with assms(1) obtain z where "s = utm_literal @ x # (takeWhile utm_class xs @ z)"
    by (auto simp: prefix_def)
  with x have "utm_match s \<noteq> None" by (simp only: utm_match_None_iff) blast
  with assms(2) show False by simp
qed

lemma utm_sub_None: "utm_match (c # cs) = None \<Longrightarrow> utm_sub (c # cs) = c # utm_sub cs"
  by simp

lemma utm_sub_Some: "utm_match (c # cs) = Some (m, r) \<Longrightarrow> utm_sub (c # cs) = utm_sub r"
  by simp

lemma utm_findall_None: "utm_match (c # cs) = None \<Longrightarrow> utm_findall (c # cs) = utm_findall cs"
  by simp

lemma utm_findall_Some:
  "utm_match (c # cs) = Some (m, r) \<Longrightarrow> utm_findall (c # cs) = m # utm_findall r"
  by simp

lemma utm_sub_cases [case_names Nil None Some]:
  assumes "P []"
    and "\<And>c cs. utm_match (c # cs) = None \<Longrightarrow> P cs \<Longrightarrow> P (c # cs)"
    and "\<And>c cs m r. utm_match (c # cs) = Some (m, r) \<Longrightarrow> P r \<Longrightarrow> P (c # cs)"
  shows "P s"
proof (induction s rule: utm_sub.induct)
  case 1
  show ?case by (rule assms(1))
next
  case (2 c cs)
  show ?case
  proof (cases "utm_match (c # cs)")
    case None
    with 2 have "P cs" by blast
    with None show ?thesis by (rule assms(2))
  next
    case (Some p)
    obtain m r where p: "p = (m, r)" by (cases p)
    with Some have "utm_match (c # cs) = Some (m, r)" by simp
    moreover from 2 Some p have "P r" by blast
    ultimately show ?thesis by (rule assms(3))
  qed
qed

lemma utm_rest_head:
  "utm_match s = Some (m, r) \<Longrightarrow> takeWhile utm_class (utm_sub r) = []"
proof -
  assume "utm_match s = Some (m, r)"
  then obtain xs where r: "r = dropWhile utm_class xs"
    by (auto simp: utm_match_Some_iff)
  show ?thesis
  proof (cases r)
    case Nil
    then show ?thesis by simp
  next
    case (Cons d ds)
    with r have "dropWhile utm_class xs = d # ds" by simp
    then have "\<not> utm_class d" using hd_dropWhile [of utm_class xs] by simp
    then have sp: "is_space d" by (simp add: utm_class_iff)
    then have "utm_match (d # ds) = None" by (rule utm_match_space)
    then have "utm_sub (d # ds) = d # utm_sub ds" by (rule utm_sub_None)
    with Cons \<open>\<not> utm_class d\<close> show ?thesis by simp
  qed
qed

lemma utm_sub_first_token: "prefix (takeWhile utm_class (utm_sub s)) s"
proof (induction s rule: utm_sub_cases)
  case Nil
  show ?case by simp
next
  case (None c cs)
  then show ?case by simp
next
  case (Some c cs m r)
  from Some(1) have "takeWhile utm_class (utm_sub r) = []" by (rule utm_rest_head)
  with Some(1) show ?case by simp
qed

lemma utm_free_utm_sub: "utm_free (utm_sub s)"
proof (induction s rule: utm_sub_cases)
  case Nil
  show ?case by simp
next
  case (None c cs)
  have "prefix (takeWhile utm_class (c # utm_sub cs)) (c # cs)"
    using utm_sub_first_token [of cs] by simp
  then have "utm_match (c # utm_sub cs) = None"
    using None(1) by (rule utm_match_prefix)
  with None show ?case by simp
next
  case (Some c cs m r)
  then show ?case by simp
qed

lemma utm_free_sub_id: "utm_free s \<Longrightarrow> utm_sub s = s"
  by (induction s) simp_all

lemma utm_free_findall: "utm_free s \<Longrightarrow> utm_findall s = []"
  by (induction s) simp_all

lemma utm_free_append: "utm_free (xs @ ys) \<Longrightarrow> utm_free xs \<and> utm_free ys"
proof (induction xs)
  case Nil
  then show ?case by simp
next
  case (Cons c xs)
  have "prefix (takeWhile utm_class (c # xs)) (c # xs @ ys)"
    by (metis append_Cons prefix_append prefix_order.order_refl takeWhile_dropWhile_id prefixI)
  moreover from Cons.prems have "utm_match (c # xs @ ys) = None" by simp
  ultimately have "utm_match (c # xs) = None" by (rule utm_match_prefix)
  with Cons show ?case by simp
qed

lemma multispace_sub_first_token:
  "takeWhile utm_class (multispace_sub s) = takeWhile utm_class s"
proof (induction s rule: multispace_sub.induct)
  case 1
  show ?case by simp
next
  case (2 c cs)
  have "\<not> utm_class 0x20" by (simp add: utm_class_def is_space_def)
  with 2 show ?case by (cases "is_space c") (simp_all add: utm_class_iff)
qed

lemma utm_free_dropWhile: "utm_free s \<Longrightarrow> utm_free (dropWhile P s)"
proof -
  assume "utm_free s"
  then have "utm_free (takeWhile P s @ dropWhile P s)" by simp
  then show ?thesis by (rule utm_free_append [THEN conjunct2])
qed

lemma utm_free_multispace_sub: "utm_free s \<Longrightarrow> utm_free (multispace_sub s)"
proof (induction s rule: multispace_sub.induct)
  case 1
  show ?case by simp
next
  case (2 c cs)
  from "2.prems" have cs: "utm_free cs" and none: "utm_match (c # cs) = None" by simp_all
  show ?case
  proof (cases "is_space c")
    case True
    from cs have "utm_free (dropWhile is_space cs)" by (rule utm_free_dropWhile)
    with 2 True have "utm_free (multispace_sub (dropWhile is_space cs))" by simp
    moreover have "utm_match (0x20 # multispace_sub (dropWhile is_space cs)) = None"
      by (rule utm_match_space) (simp add: is_space_def)
    ultimately show ?thesis using True by simp
  next
    case False
    with 2 cs have ih: "utm_free (multispace_sub cs)" by simp
    have "prefix (takeWhile utm_class (c # multispace_sub cs)) (c # cs)"
      by (simp add: multispace_sub_first_token takeWhile_is_prefix)
    then have "utm_match (c # multispace_sub cs) = None" using none by (rule utm_match_prefix)
    with ih False show ?thesis by simp
  qed
qed

lemma utm_free_strip: "utm_free s \<Longrightarrow> utm_free (strip s)"
proof -
  assume "utm_free s"
  then have "utm_free (dropWhile is_space s)" by (rule utm_free_dropWhile)
  then have "utm_free (rev (dropWhile is_space (rev (dropWhile is_space s))) @
      rev (takeWhile is_space (rev (dropWhile is_space s))))"
    using rstrip_decomp [of "dropWhile is_space s"] by simp
  then show ?thesis unfolding strip_def by (rule utm_free_append [THEN conjunct1])
qed

lemma utm_match_split:
  "utm_match s = Some (m, r) \<Longrightarrow> s = m @ r \<and> 6 \<le> length m"
  by (auto simp: utm_match_Some_iff utm_literal_eq)

lemma length_utm_sub: "length (utm_sub s) \<le> length s"
proof (induction s rule: utm_sub_cases)
  case Nil
  show ?case by simp
next
  case (None c cs)
  then show ?case by simp
next
  case (Some c cs m r)
  from Some(1) have "c # cs = m @ r" by (simp add: utm_match_split)
  then have "length r \<le> length (c # cs)" by (metis length_append le_add2)
  with Some show ?case by simp
qed

lemma set_utm_sub: "set (utm_sub s) \<subseteq> set s"
proof (induction s rule: utm_sub_cases)
  case Nil
  show ?case by simp
next
  case (None c cs)
  then show ?case by auto
next
  case (Some c cs m r)
  from Some(1) have "c # cs = m @ r" by (simp add: utm_match_split)
  then have "set r \<subseteq> set (c # cs)" by (metis set_append Un_upper2)
  with Some show ?case by auto
qed

lemma length_utm_findall: "6 * length (utm_findall s) \<le> length s"
proof (induction s rule: utm_sub_cases)
  case Nil
  show ?case by simp
next
  case (None c cs)
  then show ?case by simp
next
  case (Some c cs m r)
  from Some(1) have "c # cs = m @ r" and "6 \<le> length m" by (simp_all add: utm_match_split)
  then have "6 + length r \<le> length (c # cs)" by (metis length_append add_le_mono1)
  with Some show ?case by simp
qed

section \<open>\<open>clean_text\<close> by stages\<close>

lemma clean_text_fst:
  "fst (clean_text text lm sa) = strip (multispace_sub (utm_sub (collapsed_text lm text)))"
  by (simp add: clean_text_def Let_def split_def collapsed_text_def punct_text_def quoted_text_def)

lemma clean_text_snd:
  "snd (clean_text text lm sa) =
     (let s0 = (case sa of None \<Rightarrow> Map.empty | Some d \<Rightarrow> d);
          s1 = s0(''fancy_double_before'' \<mapsto> count_sum FANCY_DOUBLE text,
                  ''fancy_single_before'' \<mapsto> count_sum FANCY_SINGLE text);
          s2 = (if lm then s1(''lang_punct_replaced'' \<mapsto>
                  fst (lang_punct_loop LANG_PUNCT_MAP (0, quoted_text text))) else s1)
      in s2(''utm_removed_count'' \<mapsto> int (length (utm_findall (collapsed_text lm text))),
            ''final_length'' \<mapsto> int (length (fst (clean_text text lm sa)))))"
  by (simp add: clean_text_def Let_def split_def collapsed_text_def punct_text_def quoted_text_def)

lemma quoted_text_eq: "quoted_text text = map quote_map text"
  by (simp add: quoted_text_def quotes_stage)

lemma punct_text_eq:
  "punct_text lm text = (if lm then concat (map lang_map (map quote_map text)) else map quote_map text)"
  by (simp add: punct_text_def quoted_text_eq lang_text)

lemma length_punct_text_False: "length (punct_text False text) = length text"
  by (simp add: punct_text_eq)

lemma length_lang_map: "length (lang_map c) \<le> 3"
  by (simp add: lang_map_def)

lemma length_concat_lang_map: "length (concat (map lang_map t)) \<le> 3 * length t"
proof (induction t)
  case Nil
  show ?case by simp
next
  case (Cons c t)
  with length_lang_map [of c] show ?case by simp
qed

lemma length_punct_text: "length (punct_text lm text) \<le> (if lm then 3 else 1) * length text"
  using length_concat_lang_map [of "map quote_map text"] by (simp add: punct_text_eq)

lemma length_collapsed_text: "length (collapsed_text lm text) \<le> length (punct_text lm text)"
proof -
  let ?p = "punct_text lm text"
  let ?a = "replace_str [0x0D, 0x0A] [0x0A] ?p"
  let ?b = "replace_str [0x0D] [0x0A] ?a"
  have "length (collapsed_text lm text) \<le> length (multispace_sub ?b)"
    unfolding collapsed_text_def by (rule length_strip)
  also have "\<dots> \<le> length ?b" by (rule length_multispace_sub)
  also have "\<dots> \<le> length ?a" by (rule length_replace_str_le) simp
  also have "\<dots> \<le> length ?p" by (rule length_replace_str_le) simp
  finally show ?thesis .
qed

lemma length_clean_text: "length (fst (clean_text text lm sa)) \<le> length (collapsed_text lm text)"
proof -
  let ?c = "collapsed_text lm text"
  have "length (fst (clean_text text lm sa)) \<le> length (multispace_sub (utm_sub ?c))"
    unfolding clean_text_fst by (rule length_strip)
  also have "\<dots> \<le> length (utm_sub ?c)" by (rule length_multispace_sub)
  also have "\<dots> \<le> length ?c" by (rule length_utm_sub)
  finally show ?thesis .
qed

lemma collapsed_clean_text: "collapsed (fst (clean_text text lm sa))"
  unfolding clean_text_fst by (rule collapsed_strip) (rule collapsed_multispace_sub)

lemma stripped_clean_text: "stripped (fst (clean_text text lm sa))"
  unfolding clean_text_fst by (rule stripped_strip)

lemma utm_free_clean_text: "utm_free (fst (clean_text text lm sa))"
  unfolding clean_text_fst
  by (rule utm_free_strip, rule utm_free_multispace_sub, rule utm_free_utm_sub)

section \<open>The cleaned text is a fixed point\<close>

lemma collapsed_space: "collapsed s \<Longrightarrow> c \<in> set s \<Longrightarrow> is_space c \<Longrightarrow> c = 0x20"
  by (induction s) auto

lemma collapsed_adjacent:
  "collapsed s \<Longrightarrow> Suc i < length s \<Longrightarrow> is_space (s ! i) \<Longrightarrow> \<not> is_space (s ! Suc i)"
proof (induction s arbitrary: i)
  case Nil
  then show ?case by simp
next
  case (Cons c cs)
  show ?case
  proof (cases i)
    case 0
    with Cons.prems show ?thesis by (cases cs) auto
  next
    case (Suc j)
    with Cons show ?thesis by simp
  qed
qed

lemma stripped_ends: "stripped s \<Longrightarrow> s \<noteq> [] \<Longrightarrow> \<not> is_space (hd s) \<and> \<not> is_space (last s)"
  by (cases s) (simp_all add: stripped_def)

lemma quote_map_plain: "\<not> is_fancy_double (quote_map c) \<and> \<not> is_fancy_single (quote_map c)"
  by (simp add: quote_map_def is_fancy_double_def is_fancy_single_def)

lemma quote_map_id: "\<not> is_fancy_double c \<Longrightarrow> \<not> is_fancy_single c \<Longrightarrow> quote_map c = c"
  by (simp add: quote_map_def)

lemma lang_map_id: "\<not> is_lang_punct c \<Longrightarrow> lang_map c = [c]"
  by (simp add: lang_map_def is_lang_punct_def)

lemma lang_map_plain:
  "x \<in> set (lang_map c) \<Longrightarrow>
   \<not> is_lang_punct x \<and> (is_fancy_double x \<longrightarrow> is_fancy_double c) \<and>
   (is_fancy_single x \<longrightarrow> is_fancy_single c)"
  by (auto simp: lang_map_def is_lang_punct_def is_fancy_double_def is_fancy_single_def
      split: if_splits)

lemma plain_simple: "plain lm 0x20" "plain lm 0x0A"
  by (simp_all add: plain_def is_fancy_double_def is_fancy_single_def is_lang_punct_def)

lemma plain_punct_text: "c \<in> set (punct_text lm text) \<Longrightarrow> plain lm c"
proof (cases lm)
  case False
  assume "c \<in> set (punct_text lm text)"
  with False show ?thesis by (auto simp: punct_text_eq plain_def quote_map_plain)
next
  case True
  assume "c \<in> set (punct_text lm text)"
  with True obtain d where "c \<in> set (lang_map (quote_map d))"
    by (auto simp: punct_text_eq)
  then show ?thesis
    using lang_map_plain [of c "quote_map d"] quote_map_plain [of d] by (auto simp: plain_def)
qed

lemma plain_collapsed_text: "c \<in> set (collapsed_text lm text) \<Longrightarrow> plain lm c"
proof -
  let ?p = "punct_text lm text"
  let ?a = "replace_str [0x0D, 0x0A] [0x0A] ?p"
  let ?b = "replace_str [0x0D] [0x0A] ?a"
  assume "c \<in> set (collapsed_text lm text)"
  then have "c \<in> set (multispace_sub ?b)"
    unfolding collapsed_text_def using set_strip by blast
  then have "c = 0x20 \<or> c \<in> set ?b" using set_multispace_sub by blast
  moreover have "set ?b \<subseteq> set ?a \<union> set [0x0A]" by (rule set_replace_str)
  moreover have "set ?a \<subseteq> set ?p \<union> set [0x0A]" by (rule set_replace_str)
  ultimately have "c = 0x20 \<or> c = 0x0A \<or> c \<in> set ?p" by auto
  then show ?thesis using plain_simple plain_punct_text by blast
qed

lemma plain_clean_text: "c \<in> set (fst (clean_text text lm sa)) \<Longrightarrow> plain lm c"
proof -
  let ?c = "collapsed_text lm text"
  assume "c \<in> set (fst (clean_text text lm sa))"
  then have "c \<in> set (multispace_sub (utm_sub ?c))"
    unfolding clean_text_fst using set_strip by blast
  then have "c = 0x20 \<or> c \<in> set (utm_sub ?c)" using set_multispace_sub by blast
  then have "c = 0x20 \<or> c \<in> set ?c" using set_utm_sub by blast
  then show ?thesis using plain_simple plain_collapsed_text by blast
qed

lemma punct_text_plain:
  assumes "\<forall>c\<in>set s. plain lm c"
  shows "punct_text lm s = s"
proof -
  have q: "map quote_map s = s"
    using assms by (simp add: map_idI quote_map_id plain_def)
  show ?thesis
  proof (cases lm)
    case False
    with q show ?thesis by (simp add: punct_text_eq)
  next
    case True
    with assms have "\<forall>c\<in>set s. lang_map c = [c]" by (simp add: lang_map_id plain_def)
    then have "concat (map lang_map s) = s" by (induction s) simp_all
    with q True show ?thesis by (simp add: punct_text_eq)
  qed
qed

lemma clean_text_fixed:
  assumes "\<forall>c\<in>set s. plain lm c" and "collapsed s" and "stripped s" and "utm_free s"
  shows "fst (clean_text s lm sa) = s"
proof -
  have p: "punct_text lm s = s" using assms(1) by (rule punct_text_plain)
  have "0x0D \<notin> set s"
  proof
    assume "0x0D \<in> set s"
    with assms(2) have "(0x0D::nat) = 0x20" by (rule collapsed_space) (simp add: is_space_def)
    then show False by simp
  qed
  then have r: "replace_str [0x0D] [0x0A] (replace_str [0x0D, 0x0A] [0x0A] s) = s"
    by (simp add: replace_str_absent)
  have w: "strip (multispace_sub s) = s"
    using assms(2,3) by (simp add: multispace_sub_collapsed strip_stripped)
  have "collapsed_text lm s = s" by (simp add: collapsed_text_def p r w)
  then show ?thesis using assms(4) by (simp add: clean_text_fst utm_free_sub_id w)
qed

lemma clean_text_idem:
  "fst (clean_text (fst (clean_text s lm sa)) lm sb) = fst (clean_text s lm sa)"
  by (rule clean_text_fixed)
    (simp_all add: plain_clean_text collapsed_clean_text stripped_clean_text utm_free_clean_text)

section \<open>Evaluation and the examples\<close>

lemmas clean_eval =
  clean_def clean_text_def Let_def asc_def FANCY_DOUBLE_def FANCY_SINGLE_def LANG_PUNCT_MAP_def
  is_space_def strip_def utm_match_def utm_literal_def utm_class_def count_sum_def

lemma clean_fst: "fst (clean text lm) = strip (multispace_sub (utm_sub (collapsed_text lm text)))"
  by (simp add: clean_def clean_text_fst)

lemma lang_punct_quote_map:
  "length (filter is_lang_punct (map quote_map t)) = length (filter is_lang_punct t)"
  by (induction t)
    (auto simp: quote_map_def is_lang_punct_def is_fancy_double_def is_fancy_single_def)

lemma clean_snd:
  "snd (clean text lm) =
     (let s1 = [''fancy_double_before'' \<mapsto> int (length (filter is_fancy_double text)),
                ''fancy_single_before'' \<mapsto> int (length (filter is_fancy_single text))];
          s2 = (if lm then s1(''lang_punct_replaced'' \<mapsto>
                  int (length (filter is_lang_punct text))) else s1)
      in s2(''utm_removed_count'' \<mapsto> int (length (utm_findall (collapsed_text lm text))),
            ''final_length'' \<mapsto> int (length (fst (clean text lm)))))"
  using lang_punct_quote_map [of "text"]
  by (simp add: clean_def clean_text_snd count_sum_double count_sum_single lang_count
      quoted_text_eq Let_def del: filter_map)

lemma clean_fst_quotes:
  "fst (clean text lm) =
     strip (multispace_sub (utm_sub (strip (multispace_sub
       (replace_str [0x0D] [0x0A] (replace_str [0x0D, 0x0A] [0x0A]
         (if lm then snd (lang_punct_loop LANG_PUNCT_MAP (0, map quote_map text))
          else map quote_map text)))))))"
  by (simp add: clean_fst collapsed_text_def punct_text_def quoted_text_eq)

lemma example_quotes:
  "clean (asc ''Hello '' @ [0x201C] @ asc ''World'' @ [0x201D]) False =
     (asc ''Hello '' @ [0x22] @ asc ''World'' @ [0x22],
      [''fancy_double_before'' \<mapsto> 2, ''fancy_single_before'' \<mapsto> 0,
       ''utm_removed_count'' \<mapsto> 0, ''final_length'' \<mapsto> 13])"
  by (simp add: clean_eval)

lemma utm_match_greedy:
  "utm_match s = Some (m, r) \<longleftrightarrow>
     s = m @ r \<and> (\<exists>x xs. m = utm_literal @ x # xs \<and> (\<forall>c\<in>set (x # xs). \<not> is_space c)) \<and>
     (r = [] \<or> is_space (hd r))"
proof
  assume "utm_match s = Some (m, r)"
  then obtain x ys where s: "s = utm_literal @ x # ys" and x: "utm_class x"
    and m: "m = utm_literal @ x # takeWhile utm_class ys" and r: "r = dropWhile utm_class ys"
    by (auto simp: utm_match_Some_iff)
  have "s = m @ r" by (simp add: s m r)
  moreover have "\<forall>c\<in>set (x # takeWhile utm_class ys). \<not> is_space c"
    using x by (auto simp: utm_class_iff dest: set_takeWhileD)
  moreover have "r = [] \<or> is_space (hd r)"
    unfolding r using hd_dropWhile [of utm_class ys] by (auto simp: utm_class_iff)
  ultimately show "s = m @ r \<and>
      (\<exists>x xs. m = utm_literal @ x # xs \<and> (\<forall>c\<in>set (x # xs). \<not> is_space c)) \<and>
      (r = [] \<or> is_space (hd r))"
    using m by blast
next
  assume "s = m @ r \<and>
      (\<exists>x xs. m = utm_literal @ x # xs \<and> (\<forall>c\<in>set (x # xs). \<not> is_space c)) \<and>
      (r = [] \<or> is_space (hd r))"
  then obtain x xs where s: "s = m @ r" and m: "m = utm_literal @ x # xs"
    and ns: "\<forall>c\<in>set (x # xs). utm_class c" and r: "r = [] \<or> \<not> utm_class (hd r)"
    by (auto simp: utm_class_iff)
  from ns r have "takeWhile utm_class (xs @ r) = xs"
    by (cases r) (simp_all add: takeWhile_append2 takeWhile_eq_all_conv [THEN iffD2])
  moreover from ns r have "dropWhile utm_class (xs @ r) = r"
    by (cases r) (simp_all add: dropWhile_append2 dropWhile_eq_Nil_conv [THEN iffD2])
  moreover have "s = utm_literal @ x # (xs @ r)" by (simp add: s m)
  ultimately show "utm_match s = Some (m, r)"
    unfolding utm_match_Some_iff using ns m by (intro exI [of _ x] exI [of _ "xs @ r"]) simp
qed

lemma utm_findall_shape:
  "m \<in> set (utm_findall s) \<Longrightarrow>
   \<exists>x xs. m = utm_literal @ x # xs \<and> (\<forall>c\<in>set (x # xs). \<not> is_space c)"
proof (induction s rule: utm_sub_cases)
  case Nil
  then show ?case by simp
next
  case (None c cs)
  then show ?case by simp
next
  case (Some c cs m' r)
  from Some(1) have "\<exists>x xs. m' = utm_literal @ x # xs \<and> (\<forall>c\<in>set (x # xs). \<not> is_space c)"
    by (simp only: utm_match_greedy)
  with Some show ?case by auto
qed

lemma utm_sub_findall_length:
  "length (utm_sub s) + length (concat (utm_findall s)) = length s"
proof (induction s rule: utm_sub_cases)
  case Nil
  show ?case by simp
next
  case (None c cs)
  then show ?case by simp
next
  case (Some c cs m r)
  from Some(1) have "c # cs = m @ r" by (simp add: utm_match_split)
  then have "length (c # cs) = length m + length r" by (metis length_append)
  with Some show ?case by simp
qed

lemma example_utm:
  "clean (asc ''Check this: https://example.com/page?utm_source=x&utm_medium=y more text'') False =
     (asc ''Check this: https://example.com/page more text'',
      [''fancy_double_before'' \<mapsto> 0, ''fancy_single_before'' \<mapsto> 0,
       ''utm_removed_count'' \<mapsto> 1, ''final_length'' \<mapsto> 46])"
  by (simp add: clean_eval)

lemma utm_count_bound: "length (utm_findall (collapsed_text lm text)) \<le> length text"
proof -
  have "6 * length (utm_findall (collapsed_text lm text)) \<le> length (collapsed_text lm text)"
    by (rule length_utm_findall)
  also have "\<dots> \<le> length (punct_text lm text)" by (rule length_collapsed_text)
  also have "\<dots> \<le> (if lm then 3 else 1) * length text" by (rule length_punct_text)
  finally show ?thesis by (simp split: if_splits)
qed

lemma final_length_bound:
  "length (fst (clean text lm)) \<le> (if lm then 3 else 1) * length text"
proof -
  have "length (fst (clean text lm)) \<le> length (collapsed_text lm text)"
    unfolding clean_def by (rule length_clean_text)
  also have "\<dots> \<le> length (punct_text lm text)" by (rule length_collapsed_text)
  also have "\<dots> \<le> (if lm then 3 else 1) * length text" by (rule length_punct_text)
  finally show ?thesis .
qed

lemma lang_map_changes: "is_lang_punct c \<longleftrightarrow> lang_map c \<noteq> [c]"
  by (auto simp: is_lang_punct_def lang_map_def)

lemma lang_loop_result:
  "lang_punct_loop LANG_PUNCT_MAP (r, t) =
     (r + int (length (filter is_lang_punct t)), concat (map lang_map t))"
  by (rule prod_eqI) (simp_all add: lang_count lang_text)

lemma clean_fst_punct:
  "fst (clean text lm) =
     strip (multispace_sub (utm_sub (strip (multispace_sub
       (replace_str [0x0D] [0x0A] (replace_str [0x0D, 0x0A] [0x0A]
         (if lm then concat (map lang_map (map quote_map text))
          else map quote_map text)))))))"
  by (simp add: clean_fst collapsed_text_def punct_text_eq)

lemma example_punct:
  "clean ([0xBF] @ asc ''Qu'' @ [0xE9] @ asc ''? '' @ [0xA1] @ asc ''Vamos!'') True =
     (asc ''?Qu'' @ [0xE9] @ asc ''? !Vamos!'',
      [''fancy_double_before'' \<mapsto> 0, ''fancy_single_before'' \<mapsto> 0,
       ''lang_punct_replaced'' \<mapsto> 2, ''utm_removed_count'' \<mapsto> 0,
       ''final_length'' \<mapsto> 13])"
  by (simp add: clean_eval)

section \<open>The claims\<close>

text \<open>
  C1.  For every input text, every language mode and every summary passed in, the
  \<open>final_length\<close> entry of the returned summary is the length of the returned text.
\<close>

theorem final_length_is_length:
  "snd (clean_text text language_mode summary_arg) ''final_length'' =
     Some (int (length (fst (clean_text text language_mode summary_arg))))"
  by (simp add: clean_text_snd Let_def)

theorem final_length_is_length_witness:
  "snd (clean_text [0x61, 0x09, 0x20, 0x62] False None) ''final_length'' = Some 3"
  using final_length_is_length [of "[0x61, 0x09, 0x20, 0x62]" False None]
  by (simp add: clean_eval)

text \<open>
  C2.  \<open>clean\<close> returns a text and a summary for every input (the model has no error
  value, since no operation of the source can raise on a string), and on the empty text it
  returns the empty text with \<open>fancy_double_before\<close>, \<open>fancy_single_before\<close>,
  \<open>utm_removed_count\<close> and \<open>final_length\<close> all zero; \<open>lang_punct_replaced\<close> is there,
  and zero, exactly when language mode is on.
\<close>

theorem clean_total_empty:
  "(\<exists>out sm. clean text lm = (out, sm)) \<and>
   clean [] lm =
     ([], if lm
          then [''fancy_double_before'' \<mapsto> 0, ''fancy_single_before'' \<mapsto> 0,
                ''lang_punct_replaced'' \<mapsto> 0, ''utm_removed_count'' \<mapsto> 0,
                ''final_length'' \<mapsto> 0]
          else [''fancy_double_before'' \<mapsto> 0, ''fancy_single_before'' \<mapsto> 0,
                ''utm_removed_count'' \<mapsto> 0, ''final_length'' \<mapsto> 0])"
proof
  show "\<exists>out sm. clean text lm = (out, sm)" by (cases "clean text lm") blast
  show "clean [] lm =
     ([], if lm
          then [''fancy_double_before'' \<mapsto> 0, ''fancy_single_before'' \<mapsto> 0,
                ''lang_punct_replaced'' \<mapsto> 0, ''utm_removed_count'' \<mapsto> 0,
                ''final_length'' \<mapsto> 0]
          else [''fancy_double_before'' \<mapsto> 0, ''fancy_single_before'' \<mapsto> 0,
                ''utm_removed_count'' \<mapsto> 0, ''final_length'' \<mapsto> 0])"
    by (simp add: clean_eval)
qed

theorem clean_total_empty_witness:
  "clean [] True =
     ([], [''fancy_double_before'' \<mapsto> 0, ''fancy_single_before'' \<mapsto> 0,
           ''lang_punct_replaced'' \<mapsto> 0, ''utm_removed_count'' \<mapsto> 0,
           ''final_length'' \<mapsto> 0]) \<and>
   clean [] False =
     ([], [''fancy_double_before'' \<mapsto> 0, ''fancy_single_before'' \<mapsto> 0,
           ''utm_removed_count'' \<mapsto> 0, ''final_length'' \<mapsto> 0])"
  using clean_total_empty [of "[]" True] clean_total_empty [of "[]" False] by simp

text \<open>
  C3.  \<open>fancy_double_before\<close> is the number of characters of the input that are one of
  the two double-quote glyphs, \<open>fancy_single_before\<close> the number that are one of the two
  single-quote glyphs.  The two rounds of replacement turn every double glyph into \<open>"\<close> and
  every single glyph into \<open>'\<close> (\<open>map quote_map\<close>), the later stages run on that text,
  and no glyph is left in the result.  The text \<open>Hello\<close>, a space, and \<open>World\<close> between
  the two double glyphs yields \<open>Hello "World"\<close> with counts 2 and 0.
\<close>

theorem fancy_quotes_counted_replaced:
  "snd (clean text lm) ''fancy_double_before'' = Some (int (length (filter is_fancy_double text))) \<and>
   snd (clean text lm) ''fancy_single_before'' = Some (int (length (filter is_fancy_single text))) \<and>
   replace_each FANCY_SINGLE [0x27] (replace_each FANCY_DOUBLE [0x22] text) = map quote_map text \<and>
   fst (clean text lm) =
     strip (multispace_sub (utm_sub (strip (multispace_sub
       (replace_str [0x0D] [0x0A] (replace_str [0x0D, 0x0A] [0x0A]
         (if lm then snd (lang_punct_loop LANG_PUNCT_MAP (0, map quote_map text))
          else map quote_map text))))))) \<and>
   (\<forall>c\<in>set (fst (clean text lm)). \<not> is_fancy_double c \<and> \<not> is_fancy_single c) \<and>
   clean (asc ''Hello '' @ [0x201C] @ asc ''World'' @ [0x201D]) False =
     (asc ''Hello '' @ [0x22] @ asc ''World'' @ [0x22],
      [''fancy_double_before'' \<mapsto> 2, ''fancy_single_before'' \<mapsto> 0,
       ''utm_removed_count'' \<mapsto> 0, ''final_length'' \<mapsto> 13])"
proof -
  have "snd (clean text lm) ''fancy_double_before'' =
      Some (int (length (filter is_fancy_double text)))"
    by (simp add: clean_snd Let_def)
  moreover have "snd (clean text lm) ''fancy_single_before'' =
      Some (int (length (filter is_fancy_single text)))"
    by (simp add: clean_snd Let_def)
  moreover have "\<forall>c\<in>set (fst (clean text lm)). \<not> is_fancy_double c \<and> \<not> is_fancy_single c"
    unfolding clean_def using plain_clean_text by (auto simp: plain_def)
  ultimately show ?thesis
    using quotes_stage [of "text"] clean_fst_quotes [of "text" lm] example_quotes by simp
qed

theorem fancy_quotes_counted_replaced_witness:
  "snd (clean [0x201C, 0x2018, 0x61, 0x201D, 0x2019, 0x2019] False) ''fancy_double_before'' = Some 2 \<and>
   snd (clean [0x201C, 0x2018, 0x61, 0x201D, 0x2019, 0x2019] False) ''fancy_single_before'' = Some 3 \<and>
   fst (clean [0x201C, 0x2018, 0x61, 0x201D, 0x2019, 0x2019] False) = [0x22, 0x27, 0x61, 0x22, 0x27, 0x27] \<and>
   \<not> is_fancy_double 0x22"
proof -
  have e: "fst (clean [0x201C, 0x2018, 0x61, 0x201D, 0x2019, 0x2019] False) =
      [0x22, 0x27, 0x61, 0x22, 0x27, 0x27]"
    by (simp add: clean_eval)
  then have "0x22 \<in> set (fst (clean [0x201C, 0x2018, 0x61, 0x201D, 0x2019, 0x2019] False))"
    by simp
  with fancy_quotes_counted_replaced [of "[0x201C, 0x2018, 0x61, 0x201D, 0x2019, 0x2019]" False] e
  show ?thesis by (simp add: is_fancy_double_def is_fancy_single_def)
qed

text \<open>
  C4.  The matches are looked for in the text as it stands after the first whitespace
  collapse (\<open>collapsed_text\<close>); \<open>utm_removed_count\<close> is their number, and the result is
  that text with the matches left out, collapsed again.  A match at the start of \<open>s\<close> is
  the literal \<open>?utm_\<close> followed by one or more characters that are not whitespace, up to
  the next whitespace or the end of \<open>s\<close>; every element of \<open>findall\<close> has that shape;
  \<open>sub\<close> removes exactly the characters of the matches, and nothing matches in what it
  returns.  The example of the specification yields
  \<open>Check this: https://example.com/page more text\<close> with a count of 1.
\<close>

theorem utm_removal:
  "snd (clean text lm) ''utm_removed_count'' =
     Some (int (length (utm_findall (collapsed_text lm text)))) \<and>
   fst (clean text lm) = strip (multispace_sub (utm_sub (collapsed_text lm text))) \<and>
   (utm_match s = Some (m, r) \<longleftrightarrow>
      s = m @ r \<and> (\<exists>x xs. m = utm_literal @ x # xs \<and> (\<forall>c\<in>set (x # xs). \<not> is_space c)) \<and>
      (r = [] \<or> is_space (hd r))) \<and>
   (\<forall>m\<in>set (utm_findall s). \<exists>x xs. m = utm_literal @ x # xs \<and> (\<forall>c\<in>set (x # xs). \<not> is_space c)) \<and>
   length (utm_sub s) + length (concat (utm_findall s)) = length s \<and>
   utm_free (utm_sub s) \<and>
   clean (asc ''Check this: https://example.com/page?utm_source=x&utm_medium=y more text'') False =
     (asc ''Check this: https://example.com/page more text'',
      [''fancy_double_before'' \<mapsto> 0, ''fancy_single_before'' \<mapsto> 0,
       ''utm_removed_count'' \<mapsto> 1, ''final_length'' \<mapsto> 46])"
proof -
  have "snd (clean text lm) ''utm_removed_count'' =
      Some (int (length (utm_findall (collapsed_text lm text))))"
    by (simp add: clean_snd Let_def)
  moreover note clean_fst [of "text" lm] utm_match_greedy [of s m r]
    utm_sub_findall_length [of s] utm_free_utm_sub [of s] example_utm
  moreover have "\<forall>m\<in>set (utm_findall s).
      \<exists>x xs. m = utm_literal @ x # xs \<and> (\<forall>c\<in>set (x # xs). \<not> is_space c)"
    using utm_findall_shape by blast
  ultimately show ?thesis by blast
qed

theorem utm_removal_witness:
  "utm_findall (asc ''a?utm_x=1 b'') = [asc ''?utm_x=1''] \<and>
   utm_match (asc ''?utm_x=1 b'') = Some (asc ''?utm_x=1'', asc '' b'') \<and>
   length (utm_sub (asc ''a?utm_x=1 b'')) + length (concat [asc ''?utm_x=1'']) = 11 \<and>
   (\<exists>x xs. asc ''?utm_x=1'' = utm_literal @ x # xs \<and> \<not> is_space x)"
proof -
  have f: "utm_findall (asc ''a?utm_x=1 b'') = [asc ''?utm_x=1'']"
    by (simp add: asc_def utm_match_def utm_literal_def utm_class_def is_space_def)
  have g: "utm_match (asc ''?utm_x=1 b'') = Some (asc ''?utm_x=1'', asc '' b'')"
    by (simp add: asc_def utm_match_def utm_literal_def utm_class_def is_space_def)
  have "asc ''?utm_x=1'' \<in> set (utm_findall (asc ''a?utm_x=1 b''))"
    by (simp only: f list.set_intros)
  with utm_removal [of "[]" False "asc ''a?utm_x=1 b''" "[]" "[]"]
  have "\<exists>x xs. asc ''?utm_x=1'' = utm_literal @ x # xs \<and> (\<forall>c\<in>set (x # xs). \<not> is_space c)"
    and "length (utm_sub (asc ''a?utm_x=1 b'')) + length (concat (utm_findall (asc ''a?utm_x=1 b'')))
      = length (asc ''a?utm_x=1 b'')"
    by blast+
  then show ?thesis using f g by (auto simp: asc_def)
qed

text \<open>
  C5.  For a call with a new summary, the key \<open>lang_punct_replaced\<close> is there exactly
  when language mode is on, and it then holds the number of characters of the input that
  are keys of the punctuation table.  These are the characters that get replaced: the
  table changes a character exactly when it is a key, the pass over the table returns that
  count together with the text in which every key is replaced by its entry
  (\<open>concat (map lang_map t)\<close>), the quote replacement before it neither adds nor removes
  a key, the later stages run on the replaced text, and no key is left in the result.
  The Spanish example of the specification yields \<open>?Qu\<close>, e acute, \<open>? !Vamos!\<close> with a
  count of 2.
\<close>

theorem lang_punct_replaced_key:
  "snd (clean text lm) ''lang_punct_replaced'' =
     (if lm then Some (int (length (filter is_lang_punct text))) else None) \<and>
   (is_lang_punct c \<longleftrightarrow> lang_map c \<noteq> [c]) \<and>
   lang_punct_loop LANG_PUNCT_MAP (0, t) =
     (int (length (filter is_lang_punct t)), concat (map lang_map t)) \<and>
   length (filter is_lang_punct (map quote_map text)) = length (filter is_lang_punct text) \<and>
   fst (clean text lm) =
     strip (multispace_sub (utm_sub (strip (multispace_sub
       (replace_str [0x0D] [0x0A] (replace_str [0x0D, 0x0A] [0x0A]
         (if lm then concat (map lang_map (map quote_map text))
          else map quote_map text))))))) \<and>
   (\<forall>c\<in>set (fst (clean text True)). \<not> is_lang_punct c) \<and>
   clean ([0xBF] @ asc ''Qu'' @ [0xE9] @ asc ''? '' @ [0xA1] @ asc ''Vamos!'') True =
     (asc ''?Qu'' @ [0xE9] @ asc ''? !Vamos!'',
      [''fancy_double_before'' \<mapsto> 0, ''fancy_single_before'' \<mapsto> 0,
       ''lang_punct_replaced'' \<mapsto> 2, ''utm_removed_count'' \<mapsto> 0,
       ''final_length'' \<mapsto> 13])"
proof -
  have "snd (clean text lm) ''lang_punct_replaced'' =
      (if lm then Some (int (length (filter is_lang_punct text))) else None)"
    by (simp add: clean_snd Let_def)
  moreover have "\<forall>c\<in>set (fst (clean text True)). \<not> is_lang_punct c"
    unfolding clean_def using plain_clean_text by (auto simp: plain_def)
  moreover have "lang_punct_loop LANG_PUNCT_MAP (0, t) =
      (int (length (filter is_lang_punct t)), concat (map lang_map t))"
    using lang_loop_result [of 0 t] by simp
  moreover note lang_map_changes [of c] lang_punct_quote_map [of "text"]
    clean_fst_punct [of "text" lm] example_punct
  ultimately show ?thesis by blast
qed

theorem lang_punct_replaced_key_witness:
  "snd (clean [0xBF, 0x51, 0x3F, 0x20, 0xA1, 0x2026] True) ''lang_punct_replaced'' = Some 3 \<and>
   snd (clean [0xBF, 0x51, 0x3F, 0x20, 0xA1, 0x2026] False) ''lang_punct_replaced'' = None \<and>
   fst (clean [0xBF, 0x51, 0x3F, 0x20, 0xA1, 0x2026] True) =
     [0x3F, 0x51, 0x3F, 0x20, 0x21, 0x2E, 0x2E, 0x2E] \<and>
   lang_punct_loop LANG_PUNCT_MAP (0, [0xBF, 0x51, 0x2026]) = (2, [0x3F, 0x51, 0x2E, 0x2E, 0x2E]) \<and>
   \<not> is_lang_punct 0x3F"
proof -
  note on = lang_punct_replaced_key [of "[0xBF, 0x51, 0x3F, 0x20, 0xA1, 0x2026]" True "0x3F"
      "[0xBF, 0x51, 0x2026]"]
  note off = lang_punct_replaced_key [of "[0xBF, 0x51, 0x3F, 0x20, 0xA1, 0x2026]" False "0x3F" "[]"]
  have e: "fst (clean [0xBF, 0x51, 0x3F, 0x20, 0xA1, 0x2026] True) =
      [0x3F, 0x51, 0x3F, 0x20, 0x21, 0x2E, 0x2E, 0x2E]"
    by (simp add: clean_eval)
  have a: "snd (clean [0xBF, 0x51, 0x3F, 0x20, 0xA1, 0x2026] True) ''lang_punct_replaced'' = Some 3"
    using on [THEN conjunct1] by (simp add: is_lang_punct_def)
  have b: "snd (clean [0xBF, 0x51, 0x3F, 0x20, 0xA1, 0x2026] False) ''lang_punct_replaced'' = None"
    using off [THEN conjunct1] by simp
  have c: "lang_punct_loop LANG_PUNCT_MAP (0, [0xBF, 0x51, 0x2026]) =
      (2, [0x3F, 0x51, 0x2E, 0x2E, 0x2E])"
    using on [THEN conjunct2, THEN conjunct2, THEN conjunct1]
    by (simp add: is_lang_punct_def lang_map_def)
  have "0x3F \<in> set (fst (clean [0xBF, 0x51, 0x3F, 0x20, 0xA1, 0x2026] True))"
    by (simp add: e)
  with on [THEN conjunct2, THEN conjunct2, THEN conjunct2, THEN conjunct2, THEN conjunct2,
      THEN conjunct1]
  have d: "\<not> is_lang_punct 0x3F" by (rule bspec)
  from a b c d e show ?thesis by (intro conjI)
qed

text \<open>
  C6.  Cleaning reaches a fixed point after one application: cleaning the cleaned text
  again, in the same language mode, returns it unchanged.
\<close>

theorem clean_idempotent:
  "fst (clean (fst (clean s m)) m) = fst (clean s m)"
  unfolding clean_def by (rule clean_text_idem)

theorem clean_idempotent_witness:
  "fst (clean (asc ''a ?utm_b  c'' @ [0x2026]) True) = asc ''a c...'' \<and>
   fst (clean (asc ''a c...'') True) = asc ''a c...''"
proof -
  have e: "fst (clean (asc ''a ?utm_b  c'' @ [0x2026]) True) = asc ''a c...''"
    by (simp add: clean_eval)
  from clean_idempotent [of "asc ''a ?utm_b  c'' @ [0x2026]" True] e show ?thesis by simp
qed

text \<open>
  C7, as amended.  Every value of the summary is a non-negative integer.  The four counts
  are at most the length of the input; \<open>final_length\<close> is at most the length of the input
  when language mode is off, and at most three times that length when it is on (the table
  turns one ellipsis character into three dots).
\<close>

theorem summary_bounds:
  assumes "snd (clean text lm) k = Some v"
  shows "0 \<le> v \<and>
     v \<le> (if k = ''final_length'' \<and> lm then 3 * int (length text) else int (length text))"
proof -
  have a: "length (filter is_fancy_double text) \<le> length text"
    "length (filter is_fancy_single text) \<le> length text"
    "length (filter is_lang_punct text) \<le> length text"
    by (rule length_filter_le)+
  note b = utm_count_bound [of lm "text"]
  have c: "int (length (fst (clean text lm))) \<le> (if lm then 3 else 1) * int (length text)"
    using final_length_bound [of "text" lm] by (simp split: if_splits)
  from assms consider
      "k = ''final_length''" "v = int (length (fst (clean text lm)))"
    | "k = ''utm_removed_count''" "v = int (length (utm_findall (collapsed_text lm text)))"
    | "k = ''lang_punct_replaced''" "v = int (length (filter is_lang_punct text))"
    | "k = ''fancy_single_before''" "v = int (length (filter is_fancy_single text))"
    | "k = ''fancy_double_before''" "v = int (length (filter is_fancy_double text))"
    by (auto simp: clean_snd Let_def split: if_splits)
  then show ?thesis
  proof cases
    case 1
    with c show ?thesis by (simp split: if_splits)
  next
    case 2
    with b show ?thesis by simp
  next
    case 3
    with a show ?thesis by simp
  next
    case 4
    with a show ?thesis by simp
  next
    case 5
    with a show ?thesis by simp
  qed
qed

theorem summary_bounds_witness:
  "snd (clean [0x2026, 0x201C] True) ''final_length'' = Some 4 \<and>
   (0::int) \<le> 4 \<and> (4::int) \<le> 3 * int (length [0x2026::nat, 0x201C])"
proof -
  have e: "snd (clean [0x2026, 0x201C] True) ''final_length'' = Some 4"
    by (simp add: clean_eval)
  from summary_bounds [OF e] e show ?thesis by simp
qed

text \<open>
  C7 as stated fails: with language mode on, the input of one ellipsis character has
  length 1 and \<open>final_length\<close> 3.
\<close>

theorem final_length_exceeds_input:
  "snd (clean [0x2026] True) ''final_length'' = Some 3 \<and> int (length [0x2026::nat]) = 1"
  by (simp add: clean_eval)

text \<open>
  C8.  The result is a function of the text and the language mode: two calls with the same
  arguments return the same text and the same summary.  The text does not depend on the
  summary passed in, and a call without a summary is a call with an empty one.
\<close>

theorem clean_deterministic:
  "(clean text lm = r1 \<and> clean text lm = r2 \<longrightarrow> r1 = r2) \<and>
   fst (clean_text text lm sa) = fst (clean text lm) \<and>
   clean_text text lm None = clean text lm"
proof -
  have "clean_text text lm None = clean text lm"
    by (simp add: clean_def clean_text_def)
  moreover have "fst (clean_text text lm sa) = fst (clean text lm)"
    by (simp add: clean_def clean_text_fst)
  ultimately show ?thesis by blast
qed

theorem clean_deterministic_witness:
  "clean [0x20, 0x61] False =
     ([0x61], [''fancy_double_before'' \<mapsto> 0, ''fancy_single_before'' \<mapsto> 0,
               ''utm_removed_count'' \<mapsto> 0, ''final_length'' \<mapsto> 1]) \<and>
   clean_text [0x20, 0x61] False None =
     ([0x61], [''fancy_double_before'' \<mapsto> 0, ''fancy_single_before'' \<mapsto> 0,
               ''utm_removed_count'' \<mapsto> 0, ''final_length'' \<mapsto> 1]) \<and>
   fst (clean_text [0x20, 0x61] False (Some [''final_length'' \<mapsto> 7])) = [0x61]"
proof -
  have e: "clean [0x20, 0x61] False =
     ([0x61], [''fancy_double_before'' \<mapsto> 0, ''fancy_single_before'' \<mapsto> 0,
               ''utm_removed_count'' \<mapsto> 0, ''final_length'' \<mapsto> 1])"
    by (simp add: clean_eval)
  from clean_deterministic [of "[0x20, 0x61]" False "clean [0x20, 0x61] False"
      "clean [0x20, 0x61] False" "Some [''final_length'' \<mapsto> 7]"] e
  show ?thesis by simp
qed

text \<open>
  C9.  The cleaned text has no tab, carriage return or line feed; its only whitespace
  character is the space; no two whitespace characters are next to each other; and it
  neither starts nor ends with whitespace.
\<close>

theorem clean_whitespace_normal:
  "0x09 \<notin> set (fst (clean text lm)) \<and> 0x0D \<notin> set (fst (clean text lm)) \<and>
   0x0A \<notin> set (fst (clean text lm)) \<and>
   (\<forall>c\<in>set (fst (clean text lm)). is_space c \<longrightarrow> c = 0x20) \<and>
   (\<forall>i. Suc i < length (fst (clean text lm)) \<longrightarrow>
      \<not> (is_space (fst (clean text lm) ! i) \<and> is_space (fst (clean text lm) ! Suc i))) \<and>
   (fst (clean text lm) \<noteq> [] \<longrightarrow>
      \<not> is_space (hd (fst (clean text lm))) \<and> \<not> is_space (last (fst (clean text lm))))"
proof -
  define out where "out = fst (clean text lm)"
  have c: "collapsed out" and s: "stripped out"
    unfolding out_def clean_def by (rule collapsed_clean_text, rule stripped_clean_text)
  have sp: "\<forall>c\<in>set out. is_space c \<longrightarrow> c = 0x20"
    using c by (blast dest: collapsed_space)
  have "is_space 0x09" "is_space 0x0D" "is_space 0x0A" by (simp_all add: is_space_def)
  with sp have "0x09 \<notin> set out" "0x0D \<notin> set out" "0x0A \<notin> set out" by fastforce+
  moreover have "\<forall>i. Suc i < length out \<longrightarrow> \<not> (is_space (out ! i) \<and> is_space (out ! Suc i))"
    using c by (blast dest: collapsed_adjacent)
  moreover have "out \<noteq> [] \<longrightarrow> \<not> is_space (hd out) \<and> \<not> is_space (last out)"
    using s by (blast dest: stripped_ends)
  ultimately show ?thesis using sp unfolding out_def by blast
qed

theorem clean_whitespace_normal_witness:
  "fst (clean [0x09, 0x61, 0x0D, 0x0A, 0x0A, 0x20, 0x62, 0x3000] False) = [0x61, 0x20, 0x62] \<and>
   0x0A \<notin> set (fst (clean [0x09, 0x61, 0x0D, 0x0A, 0x0A, 0x20, 0x62, 0x3000] False)) \<and>
   \<not> is_space (last (fst (clean [0x09, 0x61, 0x0D, 0x0A, 0x0A, 0x20, 0x62, 0x3000] False)))"
proof -
  have e: "fst (clean [0x09, 0x61, 0x0D, 0x0A, 0x0A, 0x20, 0x62, 0x3000] False) = [0x61, 0x20, 0x62]"
    by (simp add: clean_eval)
  then have "fst (clean [0x09, 0x61, 0x0D, 0x0A, 0x0A, 0x20, 0x62, 0x3000] False) \<noteq> []" by simp
  with clean_whitespace_normal [of "[0x09, 0x61, 0x0D, 0x0A, 0x0A, 0x20, 0x62, 0x3000]" False] e
  show ?thesis by blast
qed

text \<open>
  C10.  With language mode off, the cleaned text is never longer than the input.
\<close>

theorem length_not_increased:
  "length (fst (clean text False)) \<le> length text"
proof -
  have "length (fst (clean text False)) \<le> length (collapsed_text False text)"
    unfolding clean_def by (rule length_clean_text)
  also have "\<dots> \<le> length (punct_text False text)" by (rule length_collapsed_text)
  also have "\<dots> = length text" by (rule length_punct_text_False)
  finally show ?thesis .
qed

theorem length_not_increased_witness:
  "fst (clean (asc ''  x ?utm_y'' @ [0x2026]) False) = asc ''x'' \<and>
   length (asc ''x'') \<le> length (asc ''  x ?utm_y'' @ [0x2026])"
proof -
  have e: "fst (clean (asc ''  x ?utm_y'' @ [0x2026]) False) = asc ''x''"
    by (simp add: clean_eval)
  from length_not_increased [of "asc ''  x ?utm_y'' @ [0x2026]"] e show ?thesis by simp
qed

end
